theory Spec2Isabelle
  imports Main "HOL-Library.AList"
begin

section \<open>The poll-dispatch engine of \<open>hpitclient/plugin.py\<close>\<close>

subsection \<open>Values\<close>

text \<open>
  Payloads and transaction records are JSON objects decoded into Python dicts. A dict is
  kept as an association list with \<open>AList.update\<close>: an existing key is overwritten in
  place, a new key is appended, as Python does. Numbers are integers here; the engine
  never inspects a value.
\<close>

datatype jval =
    JNull
  | JBool bool
  | JInt int
  | JStr string
  | JList "jval list"
  | JDict "(string \<times> jval) list"

type_synonym pydict = "(string \<times> jval) list"

text \<open>
  The exceptions the engine raises, catches or lets through. \<open>KeyError\<close> carries the
  key, the others their message. \<open>OtherException\<close> stands for every class the engine
  has no clause for (transport errors, errors of the application).
\<close>

datatype exn =
    KeyError string
  | TypeError string
  | PluginPollError string
  | BadCallbackException string
  | KeyboardInterrupt
  | OtherException string

text \<open>
  What a callback slot can hold: \<open>None\<close>, an object that cannot be called (with its
  truth value), or a function, named by a number. Functions are truthy.
\<close>

datatype pyobj = PyNone | NonCallable bool | Callable nat

fun truthy :: "pyobj \<Rightarrow> bool" where
  "truthy PyNone = False"
| "truthy (NonCallable b) = b"
| "truthy (Callable h) = True"

text \<open>\<open>hasattr(callback, "__call__")\<close>\<close>

fun has_call :: "pyobj \<Rightarrow> bool" where
  "has_call (Callable h) = True"
| "has_call other = False"

text \<open>
  One element of the list that \<open>plugin/message/list\<close> returns, with the four keys
  \<open>_dispatch\<close> reads; the value of \<open>message\<close> is a dict.
\<close>

record message_item =
  message_id :: jval
  sender_entity_id :: jval
  message_name :: string
  message :: pydict

subsection \<open>The plugin object and what surrounds it\<close>

text \<open>
  Every call that leaves the engine is written to \<open>trace\<close>, a log that nothing but
  the engine itself can write: it is the means to say that something was called, how
  often and with what.
\<close>

datatype event =
    Connect
  | Disconnect
  | Post string string bool
  | GetSubscriptions "string list option"
  | Get string
  | HookRun string "exn + bool"
  | Call nat pydict "exn + bool"
  | PollResponses
  | DispatchResponses

text \<open>
  \<open>Post endpoint name ok\<close>: \<open>_post_data(endpoint, {'message_name': name})\<close>, and whether
  it returned. \<open>GetSubscriptions r\<close>: the subscription list was fetched, \<open>r\<close> the names
  it gave (\<open>None\<close> when the fetch raised). \<open>Get endpoint\<close>: \<open>_get_data(endpoint)\<close>.
  \<open>HookRun name r\<close>: \<open>_try_hook(name)\<close> and its outcome. \<open>Call h p r\<close>: function
  \<open>h\<close> was called with the dict \<open>p\<close>, and returned a value of truth value \<open>b\<close>
  (\<open>r = Inr b\<close>) or raised \<open>e\<close> (\<open>r = Inl e\<close>).
\<close>

record 'w plugin =
  run_loop :: bool
  callbacks :: "string \<rightharpoonup> pyobj"
  wildcard_callback :: pyobj
  transaction_callback :: pyobj
  poll_wait :: int
  time_last_poll :: int
  world :: 'w
  trace :: "event list"

text \<open>
  The collaborators, whose code is in the mixins and in the application. The transport
  (\<open>_post_data\<close>, \<open>_get_data\<close> with the key its caller reads) and the clock
  (\<open>time.time() * 1000\<close>) act on the world outside the plugin object. Hooks, callbacks,
  \<open>connect\<close>, \<open>disconnect\<close> and the response channel run code of the application, which
  holds the plugin object and may do to it what it likes (call \<open>stop()\<close>, subscribe).
  Each of them returns or raises.
\<close>

record 'w env =
  session_connect :: "'w plugin \<Rightarrow> (exn + unit) \<times> 'w plugin"
  session_disconnect :: "'w plugin \<Rightarrow> (exn + unit) \<times> 'w plugin"
  post_data :: "string \<Rightarrow> string \<Rightarrow> 'w \<Rightarrow> (exn + unit) \<times> 'w"
  get_subscriptions :: "'w \<Rightarrow> (exn + string list) \<times> 'w"
  get_messages :: "'w \<Rightarrow> (exn + message_item list) \<times> 'w"
  get_transactions :: "'w \<Rightarrow> (exn + pydict list) \<times> 'w"
  clock :: "'w \<Rightarrow> (exn + int) \<times> 'w"
  try_hook :: "string \<Rightarrow> 'w plugin \<Rightarrow> (exn + bool) \<times> 'w plugin"
  invoke :: "nat \<Rightarrow> pydict \<Rightarrow> 'w plugin \<Rightarrow> (exn + bool) \<times> 'w plugin"
  poll_responses :: "'w plugin \<Rightarrow> (exn + jval) \<times> 'w plugin"
  dispatch_responses :: "jval \<Rightarrow> 'w plugin \<Rightarrow> (exn + bool) \<times> 'w plugin"

text \<open>
  A call of application code: run it, then append the event to the log as it was before
  the call.
\<close>

definition call_user ::
  "('w plugin \<Rightarrow> 'a \<times> 'w plugin) \<Rightarrow> ('a \<Rightarrow> event) \<Rightarrow> 'w plugin \<Rightarrow> 'a \<times> 'w plugin" where
  "call_user f ev s = (case f s of (r, s1) \<Rightarrow> (r, s1\<lparr>trace := trace s @ [ev r]\<rparr>))"

text \<open>A call of the transport: only the world changes.\<close>

definition call_world ::
  "('w \<Rightarrow> 'a \<times> 'w) \<Rightarrow> ('a \<Rightarrow> event) \<Rightarrow> 'w plugin \<Rightarrow> 'a \<times> 'w plugin" where
  "call_world f ev s =
     (case f (world s) of (r, w1) \<Rightarrow> (r, s\<lparr>world := w1, trace := trace s @ [ev r]\<rparr>))"

fun returned :: "exn + 'a \<Rightarrow> bool" where
  "returned (Inl e) = False"
| "returned (Inr v) = True"

text \<open>\<open>Plugin.__init__\<close>: the fields this file follows.\<close>

definition init :: "pyobj \<Rightarrow> int \<Rightarrow> 'w \<Rightarrow> 'w plugin" where
  "init wildcard now w =
     \<lparr>run_loop = True, callbacks = Map.empty, wildcard_callback = wildcard,
      transaction_callback = PyNone, poll_wait = 100, time_last_poll = now,
      world = w, trace = []\<rparr>"

text \<open>\<open>obj(payload)\<close>: calling what is not a function raises \<open>TypeError\<close>.\<close>

definition call_obj ::
  "'w env \<Rightarrow> pyobj \<Rightarrow> pydict \<Rightarrow> 'w plugin \<Rightarrow> (exn + bool) \<times> 'w plugin" where
  "call_obj env f p s =
     (case f of
        Callable h \<Rightarrow> call_user (invoke env h p) (Call h p) s
      | other \<Rightarrow> (Inl (TypeError ''object is not callable''), s))"

definition run_hook :: "'w env \<Rightarrow> string \<Rightarrow> 'w plugin \<Rightarrow> (exn + bool) \<times> 'w plugin" where
  "run_hook env name s = call_user (try_hook env name) (HookRun name) s"

subsection \<open>The transaction callback\<close>

definition register_transaction_callback ::
  "'w env \<Rightarrow> pyobj \<Rightarrow> 'w plugin \<Rightarrow> (exn + unit) \<times> 'w plugin" where
  "register_transaction_callback env callback s =
     (if \<not> has_call callback
      then (Inl (BadCallbackException ''The callback submitted is not callable.''), s)
      else
        (case call_world (post_data env ''plugin/subscribe'' ''transaction'')
                (\<lambda>r. Post ''plugin/subscribe'' ''transaction'' (returned r)) s of
           (Inl e, s1) \<Rightarrow> (Inl e, s1)
         | (Inr u, s1) \<Rightarrow> (Inr (), s1\<lparr>transaction_callback := callback\<rparr>)))"

definition clear_transaction_callback :: "'w env \<Rightarrow> 'w plugin \<Rightarrow> (exn + unit) \<times> 'w plugin" where
  "clear_transaction_callback env s =
     (case call_world (post_data env ''plugin/unsubscribe'' ''transaction'')
             (\<lambda>r. Post ''plugin/unsubscribe'' ''transaction'' (returned r)) s of
        (Inl e, s1) \<Rightarrow> (Inl e, s1)
      | (Inr u, s1) \<Rightarrow> (Inr (), s1\<lparr>transaction_callback := PyNone\<rparr>))"

subsection \<open>The subscription registry\<close>

text \<open>The loop of \<open>list_subscriptions\<close>: a name the registry lacks enters it with \<open>None\<close>.\<close>

fun add_missing :: "string list \<Rightarrow> (string \<rightharpoonup> pyobj) \<Rightarrow> (string \<rightharpoonup> pyobj)" where
  "add_missing [] cbs = cbs"
| "add_missing (sub # subs) cbs =
     add_missing subs (if cbs sub = None then cbs(sub \<mapsto> PyNone) else cbs)"

definition list_subscriptions ::
  "'w env \<Rightarrow> 'w plugin \<Rightarrow> (exn + (string \<rightharpoonup> pyobj)) \<times> 'w plugin" where
  "list_subscriptions env s =
     (case call_world (get_subscriptions env)
             (\<lambda>r. GetSubscriptions (case r of Inl e \<Rightarrow> None | Inr subs \<Rightarrow> Some subs)) s of
        (Inl e, s1) \<Rightarrow> (Inl e, s1)
      | (Inr subscriptions, s1) \<Rightarrow>
          (let cbs = add_missing subscriptions (callbacks s1)
           in (Inr cbs, s1\<lparr>callbacks := cbs\<rparr>)))"








subsection \<open>Polling and the transactions\<close>

definition poll :: "'w env \<Rightarrow> 'w plugin \<Rightarrow> (exn + message_item list) \<times> 'w plugin" where
  "poll env s = call_world (get_messages env) (\<lambda>r. Get ''plugin/message/list'') s"

fun transactions_loop ::
  "'w env \<Rightarrow> pydict list \<Rightarrow> 'w plugin \<Rightarrow> (exn + bool) \<times> 'w plugin" where
  "transactions_loop env [] s = (Inr True, s)"
| "transactions_loop env (item # rest) s =
     (if truthy (transaction_callback s) then
        (case call_obj env (transaction_callback s) item s of
           (Inl e, s1) \<Rightarrow> (Inl e, s1)
         | (Inr False, s1) \<Rightarrow> (Inr False, s1)
         | (Inr True, s1) \<Rightarrow> transactions_loop env rest s1)
      else transactions_loop env rest s)"

definition handle_transactions :: "'w env \<Rightarrow> 'w plugin \<Rightarrow> (exn + bool) \<times> 'w plugin" where
  "handle_transactions env s =
     (case call_world (get_transactions env) (\<lambda>r. Get ''plugin/transaction/list'') s of
        (Inl e, s1) \<Rightarrow> (Inl e, s1)
      | (Inr transaction_data, s1) \<Rightarrow> transactions_loop env transaction_data s1)"

subsection \<open>Dispatch\<close>

text \<open>Lines 158 and 159: the two keys written into the payload.\<close>

definition enrich :: "message_item \<Rightarrow> pydict" where
  "enrich item =
     AList.update ''sender_entity_id'' (sender_entity_id item)
       (AList.update ''message_id'' (message_id item) (message item))"

text \<open>The payload is changed in place: this is the item the caller holds afterwards.\<close>

definition enriched :: "message_item \<Rightarrow> message_item" where
  "enriched item = item\<lparr>message := enrich item\<rparr>"

text \<open>The clause \<open>except KeyError\<close>.\<close>

definition no_callback :: "'w env \<Rightarrow> pydict \<Rightarrow> 'w plugin \<Rightarrow> (exn + unit) \<times> 'w plugin" where
  "no_callback env payload s =
     (if truthy (wildcard_callback s) then
        (case call_obj env (wildcard_callback s) payload s of
           (Inl (TypeError t), s1) \<Rightarrow>
             (Inl (PluginPollError ''Wildcard Callback is not a callable''), s1)
         | (Inl e, s1) \<Rightarrow> (Inl e, s1)
         | (Inr v, s1) \<Rightarrow> (Inr (), s1))
      else (Inr (), s))"

text \<open>
  The clause \<open>except TypeError as e\<close>. It reads the registry again, after the callback
  ran; a name that is gone by then raises \<open>KeyError\<close> from inside the clause.
\<close>

definition not_a_function :: "string \<Rightarrow> string \<Rightarrow> 'w plugin \<Rightarrow> exn" where
  "not_a_function msg t s =
     (case callbacks s msg of
        None \<Rightarrow> KeyError msg
      | Some PyNone \<Rightarrow> PluginPollError (''No callback registered for message: <'' @ msg @ ''>'')
      | Some other \<Rightarrow> TypeError t)"

text \<open>The body of the loop of \<open>_dispatch\<close>, for one item.\<close>

definition dispatch_item ::
  "'w env \<Rightarrow> message_item \<Rightarrow> 'w plugin \<Rightarrow> (exn + unit) \<times> message_item \<times> 'w plugin" where
  "dispatch_item env item s =
     (let msg = message_name item; payload = enrich item; item1 = enriched item
      in case callbacks s msg of
           None \<Rightarrow> (case no_callback env payload s of (r, s1) \<Rightarrow> (r, item1, s1))
         | Some callback \<Rightarrow>
             (case call_obj env callback payload s of
                (Inr v, s1) \<Rightarrow> (Inr (), item1, s1)
              | (Inl (KeyError k), s1) \<Rightarrow>
                  (case no_callback env payload s1 of (r, s2) \<Rightarrow> (r, item1, s2))
              | (Inl (TypeError t), s1) \<Rightarrow> (Inl (not_a_function msg t s1), item1, s1)
              | (Inl e, s1) \<Rightarrow> (Inl e, item1, s1)))"

fun dispatch_loop ::
  "'w env \<Rightarrow> message_item list \<Rightarrow> 'w plugin
     \<Rightarrow> (exn + unit) \<times> message_item list \<times> 'w plugin" where
  "dispatch_loop env [] s = (Inr (), [], s)"
| "dispatch_loop env (item # rest) s =
     (case dispatch_item env item s of
        (Inl e, item1, s1) \<Rightarrow> (Inl e, item1 # rest, s1)
      | (Inr u, item1, s1) \<Rightarrow>
          (case dispatch_loop env rest s1 of (r, rest1, s2) \<Rightarrow> (r, item1 # rest1, s2)))"

text \<open>
  \<open>_dispatch\<close>. Besides what it returns or raises, the result holds the list of
  messages as the caller sees it afterwards.
\<close>

definition dispatch ::
  "'w env \<Rightarrow> message_item list \<Rightarrow> 'w plugin
     \<Rightarrow> (exn + bool) \<times> message_item list \<times> 'w plugin" where
  "dispatch env message_data s =
     (case run_hook env ''pre_dispatch_messages'' s of
        (Inl e, s1) \<Rightarrow> (Inl e, message_data, s1)
      | (Inr False, s1) \<Rightarrow> (Inr False, message_data, s1)
      | (Inr True, s1) \<Rightarrow>
          (case dispatch_loop env message_data s1 of
             (Inl e, data1, s2) \<Rightarrow> (Inl e, data1, s2)
           | (Inr u, data1, s2) \<Rightarrow>
               (case run_hook env ''post_dispatch_messages'' s2 of
                  (Inl e, s3) \<Rightarrow> (Inl e, data1, s3)
                | (Inr False, s3) \<Rightarrow> (Inr False, data1, s3)
                | (Inr True, s3) \<Rightarrow> (Inr True, data1, s3))))"

subsection \<open>The poll loop\<close>

text \<open>How one pass through the body of the \<open>while\<close> ends.\<close>

datatype ctl = Continue | Break | ReturnFalse

text \<open>
  \<open>if not self._try_hook(name): break\<close>, followed by the rest of the pass.
\<close>

definition gate ::
  "'w env \<Rightarrow> string \<Rightarrow> ('w plugin \<Rightarrow> (exn + ctl) \<times> 'w plugin) \<Rightarrow> 'w plugin
     \<Rightarrow> (exn + ctl) \<times> 'w plugin" where
  "gate env name rest s =
     (case run_hook env name s of
        (Inl e, s1) \<Rightarrow> (Inl e, s1)
      | (Inr False, s1) \<Rightarrow> (Inr Break, s1)
      | (Inr True, s1) \<Rightarrow> rest s1)"

text \<open>Lines 224 to 233.\<close>

definition responses_phase :: "'w env \<Rightarrow> 'w plugin \<Rightarrow> (exn + ctl) \<times> 'w plugin" where
  "responses_phase env =
     gate env ''pre_poll_responses'' (\<lambda>s1.
       case call_user (poll_responses env) (\<lambda>r. PollResponses) s1 of
         (Inl e, s2) \<Rightarrow> (Inl e, s2)
       | (Inr responses, s2) \<Rightarrow>
           gate env ''post_poll_responses'' (\<lambda>s3.
             case call_user (dispatch_responses env responses) (\<lambda>r. DispatchResponses) s3 of
               (Inl e, s4) \<Rightarrow> (Inl e, s4)
             | (Inr False, s4) \<Rightarrow> (Inr Break, s4)
             | (Inr True, s4) \<Rightarrow> (Inr Continue, s4)) s2)"

text \<open>Lines 214 to 221.\<close>

definition transactions_phase :: "'w env \<Rightarrow> 'w plugin \<Rightarrow> (exn + ctl) \<times> 'w plugin" where
  "transactions_phase env =
     gate env ''pre_handle_transactions'' (\<lambda>s1.
       case handle_transactions env s1 of
         (Inl e, s2) \<Rightarrow> (Inl e, s2)
       | (Inr False, s2) \<Rightarrow> (Inr ReturnFalse, s2)
       | (Inr True, s2) \<Rightarrow> gate env ''post_handle_transactions'' (responses_phase env) s2)"

text \<open>Lines 203 to 212.\<close>

definition messages_phase :: "'w env \<Rightarrow> 'w plugin \<Rightarrow> (exn + ctl) \<times> 'w plugin" where
  "messages_phase env =
     gate env ''pre_poll_messages'' (\<lambda>s1.
       case poll env s1 of
         (Inl e, s2) \<Rightarrow> (Inl e, s2)
       | (Inr message_data, s2) \<Rightarrow>
           gate env ''post_poll_messages'' (\<lambda>s3.
             case dispatch env message_data s3 of
               (Inl e, data1, s4) \<Rightarrow> (Inl e, s4)
             | (Inr False, data1, s4) \<Rightarrow> (Inr ReturnFalse, s4)
             | (Inr True, data1, s4) \<Rightarrow> transactions_phase env s4) s2)"

text \<open>
  One pass through the body of the \<open>while\<close>. The clock is read and compared first; a
  pass that comes too early does nothing more. Times are whole milliseconds.
\<close>

definition cycle :: "'w env \<Rightarrow> 'w plugin \<Rightarrow> (exn + ctl) \<times> 'w plugin" where
  "cycle env s =
     (case clock env (world s) of
        (Inl e, w1) \<Rightarrow> (Inl e, s\<lparr>world := w1\<rparr>)
      | (Inr cur_time, w1) \<Rightarrow>
          (let s1 = s\<lparr>world := w1\<rparr>
           in if cur_time - time_last_poll s1 < poll_wait s1 then (Inr Continue, s1)
              else messages_phase env (s1\<lparr>time_last_poll := cur_time\<rparr>)))"

text \<open>
  \<open>while self.run_loop\<close>. The loop may run for ever, so it is given a number of passes
  it may make; \<open>None\<close> says that they did not suffice. A loop whose condition has
  become false ends like one left by \<open>break\<close>: \<open>start()\<close> goes on below the loop.
\<close>

fun poll_loop :: "nat \<Rightarrow> 'w env \<Rightarrow> 'w plugin \<Rightarrow> ((exn + ctl) \<times> 'w plugin) option" where
  "poll_loop 0 env s = (if \<not> run_loop s then Some (Inr Break, s) else None)"
| "poll_loop (Suc n) env s =
     (if \<not> run_loop s then Some (Inr Break, s)
      else
        (case cycle env s of
           (Inr Continue, s1) \<Rightarrow> poll_loop n env s1
         | (r, s1) \<Rightarrow> Some (r, s1)))"

text \<open>What \<open>start()\<close> returns: \<open>None\<close> at its end, \<open>False\<close> from inside the loop.\<close>

datatype ret = RetNone | RetFalse

definition finish :: "'w env \<Rightarrow> 'w plugin \<Rightarrow> (exn + ret) \<times> 'w plugin" where
  "finish env s =
     (case call_user (session_disconnect env) (\<lambda>r. Disconnect) s of
        (Inl e, s1) \<Rightarrow> (Inl e, s1)
      | (Inr u, s1) \<Rightarrow> (Inr RetNone, s1))"

definition start :: "nat \<Rightarrow> 'w env \<Rightarrow> 'w plugin \<Rightarrow> ((exn + ret) \<times> 'w plugin) option" where
  "start n env s =
     (case call_user (session_connect env) (\<lambda>r. Connect) s of
        (Inl e, s1) \<Rightarrow> Some (Inl e, s1)
      | (Inr u, s1) \<Rightarrow>
          (case list_subscriptions env s1 of
             (Inl e, s2) \<Rightarrow> Some (Inl e, s2)
           | (Inr cbs, s2) \<Rightarrow>
               (case poll_loop n env s2 of
                  None \<Rightarrow> None
                | Some (Inl KeyboardInterrupt, s3) \<Rightarrow> Some (finish env s3)
                | Some (Inl e, s3) \<Rightarrow> Some (Inl e, s3)
                | Some (Inr ReturnFalse, s3) \<Rightarrow> Some (Inr RetFalse, s3)
                | Some (Inr c, s3) \<Rightarrow> Some (finish env s3))))"

definition stop :: "'w plugin \<Rightarrow> 'w plugin" where
  "stop s = s\<lparr>run_loop := False\<rparr>"

subsection \<open>Reading the log\<close>

text \<open>Every event of \<open>evs\<close> is a call of some function with the dict \<open>p\<close>.\<close>

definition calls_with :: "pydict \<Rightarrow> event list \<Rightarrow> bool" where
  "calls_with p evs = (\<forall>ev \<in> set evs. \<exists>h r. ev = Call h p r)"

text \<open>Every event of \<open>evs\<close> is a call of some function with a dict of \<open>ps\<close>.\<close>

definition calls_among :: "pydict set \<Rightarrow> event list \<Rightarrow> bool" where
  "calls_among ps evs = (\<forall>ev \<in> set evs. \<exists>h p r. ev = Call h p r \<and> p \<in> ps)"


text \<open>A hook that returned a false value.\<close>

fun hook_false :: "event \<Rightarrow> bool" where
  "hook_false (HookRun name (Inr False)) = True"
| "hook_false other = False"

definition quiet :: "event list \<Rightarrow> bool" where
  "quiet evs = (\<forall>ev \<in> set evs. \<not> hook_false ev)"

text \<open>Nothing follows a hook that returned a false value.\<close>

definition halts_at_false :: "event list \<Rightarrow> bool" where
  "halts_at_false evs = (\<forall>i < length evs. hook_false (evs ! i) \<longrightarrow> Suc i = length evs)"

text \<open>
  How the events of a pass and its end go together: a hook that returned a false value
  is the last event, and the pass then ends the loop.
\<close>

definition pass_ok :: "event list \<Rightarrow> exn + ctl \<Rightarrow> bool" where
  "pass_ok evs r = (halts_at_false evs \<and> (\<not> quiet evs \<longrightarrow> r = Inr Break \<or> r = Inr ReturnFalse))"

definition ends_well :: "('w plugin \<Rightarrow> (exn + ctl) \<times> 'w plugin) \<Rightarrow> bool" where
  "ends_well f = (\<forall>s r s1. f s = (r, s1) \<longrightarrow> (\<exists>evs. trace s1 = trace s @ evs \<and> pass_ok evs r))"


subsection \<open>A broker and an application to run the engine against\<close>

text \<open>
  An environment with nothing to remember: every hook returns what \<open>hooks\<close> says, every
  function what \<open>handlers\<close> says, the transport accepts the names in \<open>accepts\<close> and
  raises for the others, and the lists fetched are always the same. The clock stands at
  1000.
\<close>

definition fixed_env ::
  "(string \<Rightarrow> bool) \<Rightarrow> (nat \<Rightarrow> pydict \<Rightarrow> exn + bool) \<Rightarrow> (string \<Rightarrow> bool) \<Rightarrow> string list
     \<Rightarrow> message_item list \<Rightarrow> pydict list \<Rightarrow> unit env" where
  "fixed_env hooks handlers accepts subs msgs txns =
     \<lparr>session_connect = (\<lambda>s. (Inr (), s)),
      session_disconnect = (\<lambda>s. (Inr (), s)),
      post_data = (\<lambda>endpoint name w.
         (if accepts name then Inr () else Inl (OtherException ''ConnectionError''), w)),
      get_subscriptions = (\<lambda>w. (Inr subs, w)),
      get_messages = (\<lambda>w. (Inr msgs, w)),
      get_transactions = (\<lambda>w. (Inr txns, w)),
      clock = (\<lambda>w. (Inr 1000, w)),
      try_hook = (\<lambda>name s. (Inr (hooks name), s)),
      invoke = (\<lambda>h p s. (handlers h p, s)),
      poll_responses = (\<lambda>s. (Inr JNull, s)),
      dispatch_responses = (\<lambda>r s. (Inr True, s))\<rparr>"

text \<open>Where every hook and every function returns \<open>True\<close> and the broker has nothing.\<close>

definition quiet_env :: "unit env" where
  "quiet_env = fixed_env (\<lambda>name. True) (\<lambda>h p. Inr True) (\<lambda>name. True) [] [] []"

text \<open>A new plugin without a wildcard callback, made at time 0.\<close>

definition fresh :: "unit plugin" where
  "fresh = init PyNone 0 ()"

text \<open>Two messages.\<close>

definition unknown_event_item :: message_item where
  "unknown_event_item =
     \<lparr>message_id = JStr ''7'', sender_entity_id = JStr ''tutorB'',
      message_name = ''unknown_event'', message = [(''step'', JInt 3)]\<rparr>"

definition grade_item :: message_item where
  "grade_item =
     \<lparr>message_id = JStr ''1'', sender_entity_id = JStr ''tutorA'',
      message_name = ''grade_update'', message = [(''score'', JInt 90)]\<rparr>"

text \<open>A plugin that knows \<open>unknown_event\<close> from the broker's list only.\<close>

definition listed_only :: "unit plugin" where
  "listed_only = fresh\<lparr>callbacks := [''unknown_event'' \<mapsto> PyNone]\<rparr>"

text \<open>A plugin with a wildcard callback and an empty registry.\<close>

definition wildcard_plugin :: "unit plugin" where
  "wildcard_plugin = init (Callable 2) 0 ()"

text \<open>A plugin subscribed to \<open>grade_update\<close> with function 1, and a wildcard.\<close>

definition grade_plugin :: "pyobj \<Rightarrow> unit plugin" where
  "grade_plugin wildcard = (init wildcard 0 ())\<lparr>callbacks := [''grade_update'' \<mapsto> Callable 1]\<rparr>"

text \<open>Function 1 looks a key up that its payload lacks; the other functions return.\<close>

definition keyerror_env :: "unit env" where
  "keyerror_env =
     fixed_env (\<lambda>name. True)
       (\<lambda>h p. if h = 1 then Inl (KeyError ''student'') else Inr True)
       (\<lambda>name. True) [] [] []"

text \<open>A broker that lists \<open>unknown_event\<close> and refuses to subscribe to \<open>hint_request\<close>.\<close>

definition broker_env :: "unit env" where
  "broker_env =
     fixed_env (\<lambda>name. True) (\<lambda>h p. Inr True) (\<lambda>name. name \<noteq> ''hint_request'')
       [''unknown_event''] [] []"

text \<open>Three subscriptions, as the argument of \<open>subscribe\<close>.\<close>

definition lesson_subscriptions :: "(string \<times> pyobj) list" where
  "lesson_subscriptions =
     [(''grade_update'', Callable 1), (''hint_request'', Callable 2), (''lesson_done'', Callable 3)]"


text \<open>
  Three transaction records; the functions of \<open>ledger_env\<close> return a false value for
  the second.
\<close>

definition ledger :: "pydict list" where
  "ledger =
     [[(''step'', JInt 1)], [(''step'', JInt 2), (''void'', JBool True)], [(''step'', JInt 3)]]"

definition ledger_env :: "unit env" where
  "ledger_env =
     fixed_env (\<lambda>name. True) (\<lambda>h p. Inr (map_of p ''void'' = None)) (\<lambda>name. True) []
       [grade_item] ledger"

definition ledger_plugin :: "unit plugin" where
  "ledger_plugin = fresh\<lparr>transaction_callback := Callable 5\<rparr>"

text \<open>An application whose hook \<open>pre_dispatch_messages\<close> returns \<open>False\<close>.\<close>

definition veto_env :: "unit env" where
  "veto_env =
     fixed_env (\<lambda>name. name \<noteq> ''pre_dispatch_messages'') (\<lambda>h p. Inr True) (\<lambda>name. True) []
       [grade_item] []"

text \<open>An application whose hook \<open>pre_handle_transactions\<close> returns \<open>False\<close>.\<close>

definition halt_env :: "unit env" where
  "halt_env =
     fixed_env (\<lambda>name. name \<noteq> ''pre_handle_transactions'') (\<lambda>h p. Inr True) (\<lambda>name. True) []
       [] ledger"

section \<open>Properties\<close>

subsection \<open>What a call writes to the log\<close>

lemmas run_defs = Let_def fixed_env_def fresh_def init_def run_hook_def call_user_def call_world_def
  call_obj_def no_callback_def not_a_function_def dispatch_item_def dispatch_def
  enrich_def enriched_def

lemma call_user_trace: "call_user f ev s = (r, s1) \<Longrightarrow> trace s1 = trace s @ [ev r]"
  by (auto simp: call_user_def split: prod.splits)

lemma call_world_trace: "call_world f ev s = (r, s1) \<Longrightarrow> trace s1 = trace s @ [ev r]"
  by (auto simp: call_world_def split: prod.splits)

lemma run_hook_trace: "run_hook env name s = (r, s1) \<Longrightarrow> trace s1 = trace s @ [HookRun name r]"
  by (simp add: run_hook_def call_user_trace)

lemma call_obj_trace:
  "call_obj env f p s = (r, s1) \<Longrightarrow> trace s1 = trace s \<or> (\<exists>h. trace s1 = trace s @ [Call h p r])"
  by (cases f) (auto simp: call_obj_def dest: call_user_trace)

lemma calls_with_Nil: "calls_with p []"
  by (simp add: calls_with_def)

lemma calls_with_append: "calls_with p (xs @ ys) = (calls_with p xs \<and> calls_with p ys)"
  by (auto simp: calls_with_def)

lemma calls_with_single: "calls_with p [Call h p r]"
  by (simp add: calls_with_def)

lemma call_obj_calls:
  assumes "call_obj env f p s = (r, s1)"
  shows "\<exists>evs. trace s1 = trace s @ evs \<and> calls_with p evs"
  using call_obj_trace [OF assms] calls_with_Nil calls_with_single by fastforce

lemma no_callback_calls:
  assumes "no_callback env p s = (r, s1)"
  shows "\<exists>evs. trace s1 = trace s @ evs \<and> calls_with p evs"
proof (cases "truthy (wildcard_callback s)")
  case False
  with assms have "s1 = s" by (simp add: no_callback_def)
  then show ?thesis by (simp add: calls_with_Nil)
next
  case True
  obtain r0 s0 where c: "call_obj env (wildcard_callback s) p s = (r0, s0)"
    by (cases "call_obj env (wildcard_callback s) p s") auto
  with assms True have "s1 = s0"
    by (auto simp: no_callback_def split: sum.splits exn.splits)
  with call_obj_calls [OF c] show ?thesis by simp
qed

text \<open>
  One item: whatever becomes of it, the caller's item holds the two keys afterwards, and
  every function that was called for it got the dict with the two keys.
\<close>

lemma dispatch_item_calls:
  assumes "dispatch_item env item s = (r, item1, s1)"
  shows "item1 = enriched item
         \<and> (\<exists>evs. trace s1 = trace s @ evs \<and> calls_with (enrich item) evs)"
proof (cases "callbacks s (message_name item)")
  case None
  with assms obtain r0 where "no_callback env (enrich item) s = (r0, s1)"
    and "item1 = enriched item"
    by (auto simp: dispatch_item_def Let_def split: prod.splits)
  then show ?thesis using no_callback_calls by blast
next
  case (Some cb)
  obtain r0 s0 where c: "call_obj env cb (enrich item) s = (r0, s0)"
    by (cases "call_obj env cb (enrich item) s") auto
  from call_obj_calls [OF c] obtain evs0
    where e0: "trace s0 = trace s @ evs0" "calls_with (enrich item) evs0"
    by blast
  show ?thesis
  proof (cases "\<exists>k. r0 = Inl (KeyError k)")
    case True
    with assms Some c obtain r1 where n: "no_callback env (enrich item) s0 = (r1, s1)"
      and i: "item1 = enriched item"
      by (auto simp: dispatch_item_def Let_def split: prod.splits)
    from no_callback_calls [OF n] obtain evs1
      where "trace s1 = trace s0 @ evs1" "calls_with (enrich item) evs1"
      by blast
    with e0 i show ?thesis by (auto simp: calls_with_append)
  next
    case False
    with assms Some c have "s1 = s0 \<and> item1 = enriched item"
      by (auto simp: dispatch_item_def Let_def split: prod.splits sum.splits exn.splits)
    with e0 show ?thesis by auto
  qed
qed

subsection \<open>Dispatch of a message nobody subscribed to\<close>

lemma dispatch_item_unregistered:
  "callbacks s (message_name item) = None \<Longrightarrow> \<not> truthy (wildcard_callback s) \<Longrightarrow>
   dispatch_item env item s = (Inr (), enriched item, s)"
  by (simp add: dispatch_item_def no_callback_def)

lemma dispatch_loop_unregistered:
  "\<forall>m \<in> set message_data. callbacks s (message_name m) = None \<Longrightarrow>
   \<not> truthy (wildcard_callback s) \<Longrightarrow>
   dispatch_loop env message_data s = (Inr (), map enriched message_data, s)"
  by (induction message_data) (simp_all add: dispatch_item_unregistered)

text \<open>
  C1 (as amended). A message whose name has no entry in the registry, when no wildcard
  callback is set, raises nothing: the item is passed over (no function is called, the
  plugin is as it was, the payload holds the two keys) and the loop goes on with the
  next item; a batch of such messages leaves the loop with all payloads enriched and
  nothing else done. The error "No callback registered for message" is raised for a
  name that is in the registry with the value \<open>None\<close>.
\<close>

theorem dispatch_unregistered_no_wildcard:
  "(callbacks s (message_name item) = None \<and> \<not> truthy (wildcard_callback s) \<longrightarrow>
      dispatch_item env item s = (Inr (), enriched item, s) \<and>
      dispatch_loop env (item # rest) s =
        (case dispatch_loop env rest s of (r, rest1, s1) \<Rightarrow> (r, enriched item # rest1, s1)))
   \<and> ((\<forall>m \<in> set message_data. callbacks s (message_name m) = None)
        \<and> \<not> truthy (wildcard_callback s) \<longrightarrow>
      dispatch_loop env message_data s = (Inr (), map enriched message_data, s))
   \<and> (callbacks s (message_name item) = Some PyNone \<longrightarrow>
      dispatch_item env item s =
        (Inl (PluginPollError
               (''No callback registered for message: <'' @ message_name item @ ''>'')),
         enriched item, s))"
proof (intro conjI impI)
  assume "callbacks s (message_name item) = None \<and> \<not> truthy (wildcard_callback s)"
  then have i: "dispatch_item env item s = (Inr (), enriched item, s)"
    by (simp add: dispatch_item_unregistered)
  then show "dispatch_item env item s = (Inr (), enriched item, s)" .
  from i show "dispatch_loop env (item # rest) s =
        (case dispatch_loop env rest s of (r, rest1, s1) \<Rightarrow> (r, enriched item # rest1, s1))"
    by simp
next
  assume "(\<forall>m \<in> set message_data. callbacks s (message_name m) = None)
        \<and> \<not> truthy (wildcard_callback s)"
  then show "dispatch_loop env message_data s = (Inr (), map enriched message_data, s)"
    by (simp add: dispatch_loop_unregistered)
next
  assume "callbacks s (message_name item) = Some PyNone"
  then show "dispatch_item env item s =
        (Inl (PluginPollError
               (''No callback registered for message: <'' @ message_name item @ ''>'')),
         enriched item, s)"
    by (simp add: dispatch_item_def call_obj_def not_a_function_def)
qed

theorem dispatch_unregistered_no_wildcard_witness:
  "callbacks fresh (message_name unknown_event_item) = None
   \<and> \<not> truthy (wildcard_callback fresh)
   \<and> dispatch_item quiet_env unknown_event_item fresh =
       (Inr (), enriched unknown_event_item, fresh)
   \<and> dispatch_loop quiet_env [unknown_event_item, unknown_event_item] fresh =
       (Inr (), [enriched unknown_event_item, enriched unknown_event_item], fresh)
   \<and> callbacks listed_only (message_name unknown_event_item) = Some PyNone
   \<and> dispatch_item quiet_env unknown_event_item listed_only =
        (Inl (PluginPollError ''No callback registered for message: <unknown_event>''),
         enriched unknown_event_item, listed_only)"
proof -
  have a: "callbacks fresh (message_name unknown_event_item) = None"
    "\<not> truthy (wildcard_callback fresh)"
    by (simp_all add: fresh_def init_def)
  then have b: "\<forall>m \<in> set [unknown_event_item, unknown_event_item].
      callbacks fresh (message_name m) = None"
    by simp
  have c: "callbacks listed_only (message_name unknown_event_item) = Some PyNone"
    by (simp add: listed_only_def unknown_event_item_def)
  from a b dispatch_unregistered_no_wildcard
      [of fresh unknown_event_item quiet_env "[]" "[unknown_event_item, unknown_event_item]"]
  have d: "dispatch_item quiet_env unknown_event_item fresh =
       (Inr (), enriched unknown_event_item, fresh)"
    "dispatch_loop quiet_env [unknown_event_item, unknown_event_item] fresh =
       (Inr (), map enriched [unknown_event_item, unknown_event_item], fresh)"
    by blast+
  from c dispatch_unregistered_no_wildcard [of listed_only unknown_event_item quiet_env "[]" "[]"]
  have "dispatch_item quiet_env unknown_event_item listed_only =
        (Inl (PluginPollError
               (''No callback registered for message: <'' @ message_name unknown_event_item @ ''>'')),
         enriched unknown_event_item, listed_only)"
    by blast
  then have e: "dispatch_item quiet_env unknown_event_item listed_only =
        (Inl (PluginPollError ''No callback registered for message: <unknown_event>''),
         enriched unknown_event_item, listed_only)"
    by (simp add: unknown_event_item_def)
  from a c d e show ?thesis by simp
qed

text \<open>
  The claim as the specification has it fails: with an empty registry and no wildcard,
  \<open>_dispatch\<close> of a message named \<open>unknown_event\<close> returns \<open>True\<close>, and the log
  holds the two hooks and nothing else.
\<close>

theorem dispatch_unregistered_counterexample:
  "callbacks fresh ''unknown_event'' = None \<and> wildcard_callback fresh = PyNone
   \<and> dispatch quiet_env [unknown_event_item] fresh =
       (Inr True, [enriched unknown_event_item],
        fresh\<lparr>trace := [HookRun ''pre_dispatch_messages'' (Inr True),
                         HookRun ''post_dispatch_messages'' (Inr True)]\<rparr>)"
  by (simp add: run_defs quiet_env_def unknown_event_item_def)

subsection \<open>The payload is enriched in place\<close>

lemma calls_among_Nil: "calls_among ps []"
  by (simp add: calls_among_def)

lemma calls_among_append: "calls_among ps (xs @ ys) = (calls_among ps xs \<and> calls_among ps ys)"
  by (auto simp: calls_among_def)

lemma calls_among_mono: "calls_among ps evs \<Longrightarrow> ps \<subseteq> qs \<Longrightarrow> calls_among qs evs"
  by (fastforce simp: calls_among_def)

lemma calls_with_among: "calls_with p evs \<Longrightarrow> p \<in> ps \<Longrightarrow> calls_among ps evs"
  by (fastforce simp: calls_among_def calls_with_def)

lemma dispatch_loop_reach:
  "dispatch_loop env msgs s = (res, data1, s1) \<Longrightarrow>
   \<exists>k \<le> length msgs. data1 = map enriched (take k msgs) @ drop k msgs
     \<and> (returned res \<longrightarrow> k = length msgs)
     \<and> (\<not> returned res \<longrightarrow> 0 < k)
     \<and> (\<exists>evs. trace s1 = trace s @ evs \<and> calls_among (enrich ` set (take k msgs)) evs)"
proof (induction msgs arbitrary: s res data1 s1)
  case Nil
  then show ?case by (auto simp: calls_among_Nil)
next
  case (Cons item rest)
  obtain r0 item1 s0 where d: "dispatch_item env item s = (r0, item1, s0)"
    by (cases "dispatch_item env item s") auto
  from dispatch_item_calls [OF d] obtain evs0 where i: "item1 = enriched item"
    and e0: "trace s0 = trace s @ evs0" "calls_with (enrich item) evs0"
    by blast
  show ?case
  proof (cases r0)
    case (Inl e)
    with Cons.prems d i have "res = Inl e" "data1 = enriched item # rest" "s1 = s0"
      by auto
    with e0 have "data1 = map enriched (take 1 (item # rest)) @ drop 1 (item # rest)"
      "\<not> returned res"
      "trace s1 = trace s @ evs0" "calls_among (enrich ` set (take 1 (item # rest))) evs0"
      by (auto intro: calls_with_among)
    then show ?thesis
      by (intro exI [of _ 1]) auto
  next
    case (Inr u)
    obtain r2 rest1 s2 where l: "dispatch_loop env rest s0 = (r2, rest1, s2)"
      by (cases "dispatch_loop env rest s0") auto
    with Cons.prems d i Inr have eq: "res = r2" "data1 = enriched item # rest1" "s1 = s2"
      by auto
    from Cons.IH [OF l] obtain k evs where k: "k \<le> length rest"
      "rest1 = map enriched (take k rest) @ drop k rest"
      "returned r2 \<longrightarrow> k = length rest"
      "trace s2 = trace s0 @ evs" "calls_among (enrich ` set (take k rest)) evs"
      by blast
    have "calls_among (enrich ` set (take (Suc k) (item # rest))) (evs0 @ evs)"
      using e0(2) k(5)
      by (auto simp: calls_among_append intro: calls_with_among calls_among_mono)
    with eq k e0 show ?thesis
      by (intro exI [of _ "Suc k"]) auto
  qed
qed




lemmas ex_defs = quiet_env_def keyerror_env_def unknown_event_item_def grade_item_def
  listed_only_def wildcard_plugin_def grade_plugin_def



subsection \<open>Dispatch to a registered function\<close>

text \<open>
  A message whose name is registered with a function: unless the function raises
  \<open>KeyError\<close>, it is the one function called, once, with the enriched payload.
\<close>

lemma dispatch_item_registered:
  assumes "callbacks s (message_name item) = Some (Callable h)"
    and "invoke env h (enrich item) s = (r, s0)"
    and "\<forall>k. r \<noteq> Inl (KeyError k)"
  shows "\<exists>res s1. dispatch_item env item s = (res, enriched item, s1)
           \<and> trace s1 = trace s @ [Call h (enrich item) r]"
proof -
  let ?s1 = "s0\<lparr>trace := trace s @ [Call h (enrich item) r]\<rparr>"
  have c: "call_obj env (Callable h) (enrich item) s = (r, ?s1)"
    using assms(2) by (simp add: call_obj_def call_user_def)
  have "\<exists>res. dispatch_item env item s = (res, enriched item, ?s1)"
    using assms(1,3) c
    by (cases r) (auto simp: dispatch_item_def Let_def split: exn.splits)
  then show ?thesis by auto
qed

text \<open>
  C2: for a message whose name has a registered, callable handler, dispatch invokes
  exactly that handler exactly once, with the payload plus \<open>message_id\<close> and
  \<open>sender_entity_id\<close>. The code does so unless the handler raises \<open>KeyError\<close>: the
  clause \<open>except KeyError\<close>, meant for the lookup in the registry, then takes the
  message for an unregistered one and calls the wildcard. Here function 1 is the handler
  of \<open>grade_update\<close> and the wildcard as well, and it is called twice for one message.
\<close>

theorem dispatch_handler_keyerror_called_twice:
  "callbacks (grade_plugin (Callable 1)) ''grade_update'' = Some (Callable 1)
   \<and> dispatch keyerror_env [grade_item] (grade_plugin (Callable 1)) =
     (Inl (KeyError ''student''), [enriched grade_item],
      grade_plugin (Callable 1)
        \<lparr>trace := [HookRun ''pre_dispatch_messages'' (Inr True),
                   Call 1 (enrich grade_item) (Inl (KeyError ''student'')),
                   Call 1 (enrich grade_item) (Inl (KeyError ''student''))]\<rparr>)"
  by (simp add: run_defs ex_defs)

text \<open>
  C4: an exception raised by a registered handler leaves dispatch as it is, and the
  wildcard is not called for that message. For \<open>KeyError\<close> the code does neither:
  without a wildcard the exception is dropped and \<open>_dispatch\<close> returns \<open>True\<close>; with
  a wildcard (function 2), the wildcard is called and the exception is dropped as well.
\<close>

theorem dispatch_handler_keyerror_swallowed:
  "dispatch keyerror_env [grade_item] (grade_plugin PyNone) =
     (Inr True, [enriched grade_item],
      grade_plugin PyNone
        \<lparr>trace := [HookRun ''pre_dispatch_messages'' (Inr True),
                   Call 1 (enrich grade_item) (Inl (KeyError ''student'')),
                   HookRun ''post_dispatch_messages'' (Inr True)]\<rparr>)
   \<and> dispatch keyerror_env [grade_item] (grade_plugin (Callable 2)) =
     (Inr True, [enriched grade_item],
      grade_plugin (Callable 2)
        \<lparr>trace := [HookRun ''pre_dispatch_messages'' (Inr True),
                   Call 1 (enrich grade_item) (Inl (KeyError ''student'')),
                   Call 2 (enrich grade_item) (Inr True),
                   HookRun ''post_dispatch_messages'' (Inr True)]\<rparr>)"
  by (simp add: run_defs ex_defs)

subsection \<open>The transaction callback and the registry\<close>

lemma post_step:
  assumes "call_world (post_data env endpoint name) (\<lambda>r. Post endpoint name (returned r)) s = (r, s1)"
  shows "trace s1 = trace s @ [Post endpoint name (returned r)]"
    and "callbacks s1 = callbacks s"
    and "transaction_callback s1 = transaction_callback s"
    and "post_data env endpoint name (world s) = (r, world s1)"
  using assms by (auto simp: call_world_def split: prod.splits)

lemmas reg_defs = run_defs broker_env_def quiet_env_def register_transaction_callback_def
  list_subscriptions_def lesson_subscriptions_def

text \<open>
  C9. \<open>register_transaction_callback\<close> raises \<open>BadCallbackException\<close> for an argument
  that is not callable, and then nothing else happened: no request was sent, the slot and
  all the rest are as before. For a callable argument it sends the subscribe request for
  \<open>transaction\<close>, and when that returned it records the callback; when the request
  raised, the exception leaves the method and the slot is as before.
\<close>

theorem register_transaction_callback_checks:
  "(\<not> has_call callback \<longrightarrow>
      register_transaction_callback env callback s =
        (Inl (BadCallbackException ''The callback submitted is not callable.''), s))
   \<and> (has_call callback \<and> register_transaction_callback env callback s = (res, s1) \<longrightarrow>
        trace s1 = trace s @ [Post ''plugin/subscribe'' ''transaction'' (returned res)]
      \<and> returned res = returned (fst (post_data env ''plugin/subscribe'' ''transaction'' (world s)))
      \<and> (returned res \<longrightarrow> transaction_callback s1 = callback)
      \<and> (\<not> returned res \<longrightarrow> transaction_callback s1 = transaction_callback s)
      \<and> callbacks s1 = callbacks s)"
proof -
  obtain r0 s0 where p: "call_world (post_data env ''plugin/subscribe'' ''transaction'')
      (\<lambda>r. Post ''plugin/subscribe'' ''transaction'' (returned r)) s = (r0, s0)"
    by (cases "call_world (post_data env ''plugin/subscribe'' ''transaction'')
      (\<lambda>r. Post ''plugin/subscribe'' ''transaction'' (returned r)) s") auto
  show ?thesis
    using post_step [OF p] p
    by (cases r0) (auto simp: register_transaction_callback_def)
qed

theorem register_transaction_callback_checks_witness:
  "\<not> has_call (NonCallable True)
   \<and> register_transaction_callback quiet_env (NonCallable True) fresh =
       (Inl (BadCallbackException ''The callback submitted is not callable.''), fresh)
   \<and> has_call (Callable 3)
   \<and> register_transaction_callback quiet_env (Callable 3) fresh =
       (Inr (), fresh\<lparr>transaction_callback := Callable 3,
                      trace := [Post ''plugin/subscribe'' ''transaction'' True]\<rparr>)
   \<and> trace (fresh\<lparr>transaction_callback := Callable 3,
                    trace := [Post ''plugin/subscribe'' ''transaction'' True]\<rparr>) =
       trace fresh @ [Post ''plugin/subscribe'' ''transaction'' (returned (Inr () :: exn + unit))]"
proof -
  let ?s1 = "fresh\<lparr>transaction_callback := Callable 3,
                    trace := [Post ''plugin/subscribe'' ''transaction'' True]\<rparr>"
  have a: "\<not> has_call (NonCallable True)" "has_call (Callable 3)" by simp_all
  have b: "register_transaction_callback quiet_env (Callable 3) fresh = (Inr (), ?s1)"
    by (simp add: reg_defs)
  from register_transaction_callback_checks [of "NonCallable True" quiet_env fresh] a
  have c: "register_transaction_callback quiet_env (NonCallable True) fresh =
       (Inl (BadCallbackException ''The callback submitted is not callable.''), fresh)"
    by blast
  from register_transaction_callback_checks [of "Callable 3" quiet_env fresh "Inr ()" ?s1] a b
  have "trace ?s1 = trace fresh @ [Post ''plugin/subscribe'' ''transaction'' (returned (Inr () :: exn + unit))]"
    by blast
  with a b c show ?thesis by blast
qed

















subsection \<open>The transactions\<close>





lemmas loop_defs = run_defs handle_transactions_def poll_def gate_def cycle_def
  messages_phase_def transactions_phase_def responses_phase_def start_def finish_def
  list_subscriptions_def


subsection \<open>The poll loop\<close>

text \<open>
  C3: on every exit of the loop of \<open>start()\<close> the broker disconnect is run, and
  connect and disconnect are called once each. The code leaves \<open>start()\<close> by
  \<open>return False\<close> when \<open>_dispatch\<close> or \<open>_handle_transactions\<close> returned a false
  value, and does not reach \<open>self.disconnect()\<close> then: in both runs the log holds
  \<open>Connect\<close> and no \<open>Disconnect\<close>. In the first the hook \<open>pre_dispatch_messages\<close>
  returns \<open>False\<close>, in the second the transaction callback does.
\<close>

theorem start_returns_without_disconnect:
  "start 1 veto_env fresh =
     Some (Inr RetFalse,
       fresh\<lparr>time_last_poll := 1000,
             trace := [Connect, GetSubscriptions (Some []),
                       HookRun ''pre_poll_messages'' (Inr True),
                       Get ''plugin/message/list'',
                       HookRun ''post_poll_messages'' (Inr True),
                       HookRun ''pre_dispatch_messages'' (Inr False)]\<rparr>)
   \<and> start 1 ledger_env ledger_plugin =
     Some (Inr RetFalse,
       ledger_plugin\<lparr>time_last_poll := 1000,
             trace := [Connect, GetSubscriptions (Some []),
                       HookRun ''pre_poll_messages'' (Inr True),
                       Get ''plugin/message/list'',
                       HookRun ''post_poll_messages'' (Inr True),
                       HookRun ''pre_dispatch_messages'' (Inr True),
                       HookRun ''post_dispatch_messages'' (Inr True),
                       HookRun ''pre_handle_transactions'' (Inr True),
                       Get ''plugin/transaction/list'',
                       Call 5 [(''step'', JInt 1)] (Inr True),
                       Call 5 [(''step'', JInt 2), (''void'', JBool True)] (Inr False)]\<rparr>)"
  by (simp add: loop_defs veto_env_def ledger_env_def ledger_plugin_def ledger_def grade_item_def)

subsection \<open>Hooks that return a false value\<close>

lemma quiet_Nil: "quiet []"
  by (simp add: quiet_def)

lemma quiet_append: "quiet (xs @ ys) = (quiet xs \<and> quiet ys)"
  by (auto simp: quiet_def)

lemma quiet_Cons: "quiet (x # xs) = (\<not> hook_false x \<and> quiet xs)"
  by (auto simp: quiet_def)

lemma quiet_halts: "quiet evs \<Longrightarrow> halts_at_false evs"
  by (auto simp: quiet_def halts_at_false_def)

lemma halts_single: "halts_at_false [ev]"
  by (simp add: halts_at_false_def)

lemma halts_append:
  assumes "quiet xs" and "halts_at_false ys"
  shows "halts_at_false (xs @ ys)"
  unfolding halts_at_false_def
proof (intro allI impI)
  fix i
  assume i: "i < length (xs @ ys)" and h: "hook_false ((xs @ ys) ! i)"
  have "\<not> i < length xs"
    using assms(1) h by (auto simp: quiet_def nth_append)
  with i h have "i - length xs < length ys" "hook_false (ys ! (i - length xs))"
    by (auto simp: nth_append)
  with assms(2) have "Suc (i - length xs) = length ys"
    by (simp add: halts_at_false_def)
  with \<open>\<not> i < length xs\<close> show "Suc i = length (xs @ ys)" by simp
qed

lemma halts_snoc: "quiet xs \<Longrightarrow> halts_at_false (xs @ [ev])"
  by (simp add: halts_append halts_single)

lemma calls_with_quiet: "calls_with p evs \<Longrightarrow> quiet evs"
  by (auto simp: calls_with_def quiet_def)

lemma calls_among_quiet: "calls_among ps evs \<Longrightarrow> quiet evs"
  by (auto simp: calls_among_def quiet_def)

lemma hook_false_iff: "hook_false ev = (\<exists>name. ev = HookRun name (Inr False))"
  by (cases ev rule: hook_false.cases) auto

text \<open>The transactions: the fetch and calls, no hook.\<close>

lemma transactions_loop_quiet:
  "transactions_loop env records s = (r, s1) \<Longrightarrow> \<exists>evs. trace s1 = trace s @ evs \<and> quiet evs"
proof (induction records arbitrary: s)
  case Nil
  then show ?case by (simp add: quiet_Nil)
next
  case (Cons item rest)
  show ?case
  proof (cases "truthy (transaction_callback s)")
    case False
    with Cons.prems have "transactions_loop env rest s = (r, s1)" by simp
    from Cons.IH [OF this] show ?thesis .
  next
    case True
    obtain r0 s0 where c: "call_obj env (transaction_callback s) item s = (r0, s0)"
      by (cases "call_obj env (transaction_callback s) item s") auto
    from call_obj_calls [OF c] obtain evs0 where e0: "trace s0 = trace s @ evs0" "quiet evs0"
      using calls_with_quiet by blast
    show ?thesis
    proof (cases "r0 = Inr True")
      case False
      with Cons.prems True c have "s1 = s0"
        by (auto split: sum.splits bool.splits)
      with e0 show ?thesis by blast
    next
      case r0: True
      with Cons.prems True c have "transactions_loop env rest s0 = (r, s1)" by simp
      from Cons.IH [OF this] obtain evs where "trace s1 = trace s0 @ evs" "quiet evs"
        by blast
      with e0 have "trace s1 = trace s @ (evs0 @ evs)" "quiet (evs0 @ evs)"
        by (simp_all add: quiet_append)
      then show ?thesis by blast
    qed
  qed
qed

lemma handle_transactions_quiet:
  assumes "handle_transactions env s = (r, s1)"
  shows "\<exists>evs. trace s1 = trace s @ evs \<and> quiet evs"
proof -
  obtain r0 s0 where g: "call_world (get_transactions env) (\<lambda>r. Get ''plugin/transaction/list'') s = (r0, s0)"
    by (cases "call_world (get_transactions env) (\<lambda>r. Get ''plugin/transaction/list'') s") auto
  note t0 = call_world_trace [OF g]
  show ?thesis
  proof (cases r0)
    case (Inl e)
    with assms g have "s1 = s0" by (simp add: handle_transactions_def)
    with t0 have "trace s1 = trace s @ [Get ''plugin/transaction/list'']"
      "quiet [Get ''plugin/transaction/list'']"
      by (simp_all add: quiet_def)
    then show ?thesis by blast
  next
    case (Inr records)
    with assms g have "transactions_loop env records s0 = (r, s1)"
      by (simp add: handle_transactions_def)
    from transactions_loop_quiet [OF this] obtain evs where "trace s1 = trace s0 @ evs" "quiet evs"
      by blast
    with t0 have "trace s1 = trace s @ (Get ''plugin/transaction/list'' # evs)"
      "quiet (Get ''plugin/transaction/list'' # evs)"
      by (simp_all add: quiet_Cons)
    then show ?thesis by blast
  qed
qed

text \<open>\<open>_dispatch\<close>: a hook that returned a false value is its last event, and it returns \<open>False\<close>.\<close>

lemma dispatch_halts:
  assumes "dispatch env msgs s = (r, data1, s1)"
  shows "\<exists>evs. trace s1 = trace s @ evs \<and> halts_at_false evs \<and> (\<not> quiet evs \<longrightarrow> r = Inr False)"
proof -
  obtain r0 s0 where h0: "run_hook env ''pre_dispatch_messages'' s = (r0, s0)"
    by (cases "run_hook env ''pre_dispatch_messages'' s") auto
  note t0 = run_hook_trace [OF h0]
  show ?thesis
  proof (cases "r0 = Inr True")
    case False
    with assms h0 have "s1 = s0" "r0 = Inr False \<longrightarrow> r = Inr False"
      by (auto simp: dispatch_def split: sum.splits bool.splits)
    with t0 have "trace s1 = trace s @ [HookRun ''pre_dispatch_messages'' r0]"
      "halts_at_false [HookRun ''pre_dispatch_messages'' r0]"
      "\<not> quiet [HookRun ''pre_dispatch_messages'' r0] \<longrightarrow> r = Inr False"
      by (auto simp: halts_single quiet_def hook_false_iff)
    then show ?thesis by blast
  next
    case True
    obtain r2 d2 s2 where l: "dispatch_loop env msgs s0 = (r2, d2, s2)"
      by (cases "dispatch_loop env msgs s0") auto
    from dispatch_loop_reach [OF l] obtain evs where e: "trace s2 = trace s0 @ evs" "quiet evs"
      using calls_among_quiet by blast
    have q0: "quiet [HookRun ''pre_dispatch_messages'' r0]"
      using True by (simp add: quiet_def)
    show ?thesis
    proof (cases r2)
      case (Inl e2)
      with assms h0 True l have "s1 = s2" by (auto simp: dispatch_def)
      with e t0 q0 have "trace s1 = trace s @ ([HookRun ''pre_dispatch_messages'' r0] @ evs)"
        "quiet ([HookRun ''pre_dispatch_messages'' r0] @ evs)"
        by (simp_all add: quiet_Cons quiet_Nil)
      then show ?thesis using quiet_halts by blast
    next
      case (Inr u)
      obtain r3 s3 where h3: "run_hook env ''post_dispatch_messages'' s2 = (r3, s3)"
        by (cases "run_hook env ''post_dispatch_messages'' s2") auto
      with assms h0 True l Inr have s1: "s1 = s3" and r: "r3 = Inr False \<longrightarrow> r = Inr False"
        by (auto simp: dispatch_def split: sum.splits bool.splits)
      let ?evs = "([HookRun ''pre_dispatch_messages'' r0] @ evs) @ [HookRun ''post_dispatch_messages'' r3]"
      have "trace s1 = trace s @ ?evs"
        using s1 e t0 run_hook_trace [OF h3] by simp
      moreover have "halts_at_false ?evs"
        using q0 e(2) by (intro halts_snoc) (simp add: quiet_append quiet_Cons quiet_Nil)
      moreover have "\<not> quiet ?evs \<longrightarrow> r = Inr False"
        using q0 e(2) r by (auto simp: quiet_append quiet_Cons quiet_Nil hook_false_iff)
      ultimately show ?thesis by blast
    qed
  qed
qed

lemma pass_ok_quiet: "quiet evs \<Longrightarrow> pass_ok evs r"
  by (simp add: pass_ok_def quiet_halts)

lemma pass_ok_prepend: "quiet xs \<Longrightarrow> pass_ok ys r \<Longrightarrow> pass_ok (xs @ ys) r"
  by (simp add: pass_ok_def halts_append quiet_append)

lemma quiet_single: "\<not> hook_false ev \<Longrightarrow> quiet [ev]"
  by (simp add: quiet_def)

lemma ends_wellI:
  assumes "\<And>s r s1. f s = (r, s1) \<Longrightarrow> \<exists>evs. trace s1 = trace s @ evs \<and> pass_ok evs r"
  shows "ends_well f"
  using assms by (simp add: ends_well_def)

lemma ends_wellD:
  "ends_well f \<Longrightarrow> f s = (r, s1) \<Longrightarrow> \<exists>evs. trace s1 = trace s @ evs \<and> pass_ok evs r"
  by (simp add: ends_well_def)

text \<open>A step that writes events without a false hook, followed by a rest that ends well.\<close>

lemma after_quiet:
  assumes "trace s0 = trace s @ evs0" and "quiet evs0"
    and "\<exists>evs. trace s1 = trace s0 @ evs \<and> pass_ok evs r"
  shows "\<exists>evs. trace s1 = trace s @ evs \<and> pass_ok evs r"
proof -
  from assms(3) obtain evs where "trace s1 = trace s0 @ evs" "pass_ok evs r" by blast
  with assms(1,2) have "trace s1 = trace s @ (evs0 @ evs)" "pass_ok (evs0 @ evs) r"
    by (simp_all add: pass_ok_prepend)
  then show ?thesis by blast
qed

lemma only_quiet:
  assumes "trace s1 = trace s @ evs0" and "quiet evs0"
  shows "\<exists>evs. trace s1 = trace s @ evs \<and> pass_ok evs r"
  using assms pass_ok_quiet by blast

lemma gate_ends_well:
  assumes "ends_well rest"
  shows "ends_well (gate env name rest)"
proof (rule ends_wellI)
  fix s r s1
  assume g: "gate env name rest s = (r, s1)"
  obtain r0 s0 where h: "run_hook env name s = (r0, s0)"
    by (cases "run_hook env name s") auto
  note t0 = run_hook_trace [OF h]
  show "\<exists>evs. trace s1 = trace s @ evs \<and> pass_ok evs r"
  proof (cases "r0 = Inr True")
    case True
    with g h have "rest s0 = (r, s1)" by (simp add: gate_def)
    from ends_wellD [OF assms this] t0 True show ?thesis
      by (intro after_quiet [of s0 s "[HookRun name r0]"]) (simp_all add: quiet_single)
  next
    case False
    show ?thesis
    proof (cases "r0 = Inr False")
      case True
      with g h have "r = Inr Break" "s1 = s0" by (simp_all add: gate_def)
      with t0 have "trace s1 = trace s @ [HookRun name r0]" "pass_ok [HookRun name r0] r"
        by (simp_all add: pass_ok_def halts_single)
      then show ?thesis by blast
    next
      case f: False
      with False g h have "s1 = s0"
        by (auto simp: gate_def split: sum.splits bool.splits)
      with t0 False f show ?thesis
        by (intro only_quiet [of _ _ "[HookRun name r0]"]) (auto simp: quiet_def hook_false_iff)
    qed
  qed
qed

lemma responses_phase_ends_well: "ends_well (responses_phase env)"
  unfolding responses_phase_def
proof (rule gate_ends_well, rule ends_wellI)
  fix s r s1
  assume a: "(case call_user (poll_responses env) (\<lambda>r. PollResponses) s of
         (Inl e, s2) \<Rightarrow> (Inl e, s2)
       | (Inr responses, s2) \<Rightarrow>
           gate env ''post_poll_responses'' (\<lambda>s3.
             case call_user (dispatch_responses env responses) (\<lambda>r. DispatchResponses) s3 of
               (Inl e, s4) \<Rightarrow> (Inl e, s4)
             | (Inr False, s4) \<Rightarrow> (Inr Break, s4)
             | (Inr True, s4) \<Rightarrow> (Inr Continue, s4)) s2) = (r, s1)"
  obtain r0 s0 where p: "call_user (poll_responses env) (\<lambda>r. PollResponses) s = (r0, s0)"
    by (cases "call_user (poll_responses env) (\<lambda>r. PollResponses) s") auto
  note t0 = call_user_trace [OF p]
  show "\<exists>evs. trace s1 = trace s @ evs \<and> pass_ok evs r"
  proof (cases r0)
    case (Inl e)
    with a p have "s1 = s0" by simp
    with t0 show ?thesis
      by (intro only_quiet [of _ _ "[PollResponses]"]) (simp_all add: quiet_single)
  next
    case (Inr responses)
    let ?k = "\<lambda>s3. case call_user (dispatch_responses env responses) (\<lambda>r. DispatchResponses) s3 of
               (Inl e, s4) \<Rightarrow> (Inl e, s4)
             | (Inr False, s4) \<Rightarrow> (Inr Break, s4)
             | (Inr True, s4) \<Rightarrow> (Inr Continue, s4)"
    have "ends_well ?k"
    proof (rule ends_wellI)
      fix s3 r3 s4
      assume b: "?k s3 = (r3, s4)"
      obtain r5 s5 where d: "call_user (dispatch_responses env responses) (\<lambda>r. DispatchResponses) s3 = (r5, s5)"
        by (cases "call_user (dispatch_responses env responses) (\<lambda>r. DispatchResponses) s3") auto
      with b have "s4 = s5" by (auto split: sum.splits bool.splits)
      with call_user_trace [OF d] show "\<exists>evs. trace s4 = trace s3 @ evs \<and> pass_ok evs r3"
        by (intro only_quiet [of _ _ "[DispatchResponses]"]) (simp_all add: quiet_single)
    qed
    then have "ends_well (gate env ''post_poll_responses'' ?k)"
      by (rule gate_ends_well)
    moreover from a p Inr have "gate env ''post_poll_responses'' ?k s0 = (r, s1)" by simp
    ultimately have "\<exists>evs. trace s1 = trace s0 @ evs \<and> pass_ok evs r"
      by (rule ends_wellD)
    with t0 show ?thesis
      by (intro after_quiet [of s0 s "[PollResponses]"]) (simp_all add: quiet_single)
  qed
qed

lemma transactions_phase_ends_well: "ends_well (transactions_phase env)"
  unfolding transactions_phase_def
proof (rule gate_ends_well, rule ends_wellI)
  fix s r s1
  assume a: "(case handle_transactions env s of
         (Inl e, s2) \<Rightarrow> (Inl e, s2)
       | (Inr False, s2) \<Rightarrow> (Inr ReturnFalse, s2)
       | (Inr True, s2) \<Rightarrow> gate env ''post_handle_transactions'' (responses_phase env) s2) = (r, s1)"
  obtain r0 s0 where h: "handle_transactions env s = (r0, s0)"
    by (cases "handle_transactions env s") auto
  from handle_transactions_quiet [OF h] obtain evs0 where e0: "trace s0 = trace s @ evs0" "quiet evs0"
    by blast
  show "\<exists>evs. trace s1 = trace s @ evs \<and> pass_ok evs r"
  proof (cases "r0 = Inr True")
    case False
    with a h have "s1 = s0" by (auto split: sum.splits bool.splits)
    with e0 show ?thesis by (intro only_quiet [of _ _ evs0]) simp_all
  next
    case True
    with a h have "gate env ''post_handle_transactions'' (responses_phase env) s0 = (r, s1)"
      by simp
    with gate_ends_well [OF responses_phase_ends_well]
    have "\<exists>evs. trace s1 = trace s0 @ evs \<and> pass_ok evs r"
      by (rule ends_wellD)
    with e0 show ?thesis by (intro after_quiet [of s0 s evs0]) simp_all
  qed
qed

lemma messages_phase_ends_well: "ends_well (messages_phase env)"
  unfolding messages_phase_def
proof (rule gate_ends_well, rule ends_wellI)
  fix s r s1
  assume a: "(case poll env s of
         (Inl e, s2) \<Rightarrow> (Inl e, s2)
       | (Inr message_data, s2) \<Rightarrow>
           gate env ''post_poll_messages'' (\<lambda>s3.
             case dispatch env message_data s3 of
               (Inl e, data1, s4) \<Rightarrow> (Inl e, s4)
             | (Inr False, data1, s4) \<Rightarrow> (Inr ReturnFalse, s4)
             | (Inr True, data1, s4) \<Rightarrow> transactions_phase env s4) s2) = (r, s1)"
  obtain r0 s0 where p: "poll env s = (r0, s0)"
    by (cases "poll env s") auto
  then have t0: "trace s0 = trace s @ [Get ''plugin/message/list'']"
    by (simp add: poll_def call_world_trace)
  show "\<exists>evs. trace s1 = trace s @ evs \<and> pass_ok evs r"
  proof (cases r0)
    case (Inl e)
    with a p have "s1 = s0" by simp
    with t0 show ?thesis
      by (intro only_quiet [of _ _ "[Get ''plugin/message/list'']"]) (simp_all add: quiet_single)
  next
    case (Inr message_data)
    let ?k = "\<lambda>s3. case dispatch env message_data s3 of
               (Inl e, data1, s4) \<Rightarrow> (Inl e, s4)
             | (Inr False, data1, s4) \<Rightarrow> (Inr ReturnFalse, s4)
             | (Inr True, data1, s4) \<Rightarrow> transactions_phase env s4"
    have "ends_well ?k"
    proof (rule ends_wellI)
      fix s3 r3 s4
      assume b: "?k s3 = (r3, s4)"
      obtain r5 d5 s5 where d: "dispatch env message_data s3 = (r5, d5, s5)"
        by (cases "dispatch env message_data s3") auto
      from dispatch_halts [OF d] obtain evs5 where e5: "trace s5 = trace s3 @ evs5"
        "halts_at_false evs5" "\<not> quiet evs5 \<longrightarrow> r5 = Inr False"
        by blast
      show "\<exists>evs. trace s4 = trace s3 @ evs \<and> pass_ok evs r3"
      proof (cases "r5 = Inr True")
        case True
        with b d have "transactions_phase env s5 = (r3, s4)" by simp
        with transactions_phase_ends_well have "\<exists>evs. trace s4 = trace s5 @ evs \<and> pass_ok evs r3"
          by (rule ends_wellD)
        moreover from True e5(3) have "quiet evs5" by auto
        ultimately show ?thesis using e5(1) by (intro after_quiet [of s5 s3 evs5]) simp_all
      next
        case False
        with b d have "s4 = s5" "r5 = Inr False \<longrightarrow> r3 = Inr ReturnFalse"
          by (auto split: sum.splits bool.splits)
        with e5 have "trace s4 = trace s3 @ evs5" "pass_ok evs5 r3"
          by (auto simp: pass_ok_def)
        then show ?thesis by blast
      qed
    qed
    then have "ends_well (gate env ''post_poll_messages'' ?k)"
      by (rule gate_ends_well)
    moreover from a p Inr have "gate env ''post_poll_messages'' ?k s0 = (r, s1)" by simp
    ultimately have "\<exists>evs. trace s1 = trace s0 @ evs \<and> pass_ok evs r"
      by (rule ends_wellD)
    with t0 show ?thesis
      by (intro after_quiet [of s0 s "[Get ''plugin/message/list'']"]) (simp_all add: quiet_single)
  qed
qed

lemma cycle_ends_well: "ends_well (cycle env)"
proof (rule ends_wellI)
  fix s r s1
  assume a: "cycle env s = (r, s1)"
  obtain r0 w0 where c: "clock env (world s) = (r0, w0)"
    by (cases "clock env (world s)") auto
  show "\<exists>evs. trace s1 = trace s @ evs \<and> pass_ok evs r"
  proof (cases r0)
    case (Inl e)
    with a c have "trace s1 = trace s @ []" by (auto simp: cycle_def)
    then show ?thesis by (rule only_quiet) (simp add: quiet_Nil)
  next
    case (Inr cur_time)
    let ?s0 = "s\<lparr>world := w0\<rparr>"
    show ?thesis
    proof (cases "cur_time - time_last_poll ?s0 < poll_wait ?s0")
      case True
      with a c Inr have "trace s1 = trace s @ []" by (auto simp: cycle_def Let_def)
      then show ?thesis by (rule only_quiet) (simp add: quiet_Nil)
    next
      case False
      with a c Inr have "messages_phase env (?s0\<lparr>time_last_poll := cur_time\<rparr>) = (r, s1)"
        by (auto simp: cycle_def Let_def)
      with messages_phase_ends_well
      have "\<exists>evs. trace s1 = trace (?s0\<lparr>time_last_poll := cur_time\<rparr>) @ evs \<and> pass_ok evs r"
        by (rule ends_wellD)
      then show ?thesis by simp
    qed
  qed
qed

lemma poll_loop_ends_well:
  "poll_loop n env s = Some (r, s1) \<Longrightarrow> \<exists>evs. trace s1 = trace s @ evs \<and> pass_ok evs r"
proof (induction n arbitrary: s)
  case 0
  then have "trace s1 = trace s @ []" by (auto split: if_splits)
  then show ?case by (rule only_quiet) (simp add: quiet_Nil)
next
  case (Suc n)
  show ?case
  proof (cases "run_loop s")
    case False
    with Suc.prems have "trace s1 = trace s @ []" by auto
    then show ?thesis by (rule only_quiet) (simp add: quiet_Nil)
  next
    case True
    obtain r0 s0 where c: "cycle env s = (r0, s0)"
      by (cases "cycle env s") auto
    from ends_wellD [OF cycle_ends_well c] obtain evs0 where e0: "trace s0 = trace s @ evs0"
      "pass_ok evs0 r0"
      by blast
    show ?thesis
    proof (cases "r0 = Inr Continue")
      case False
      with Suc.prems True c have "r = r0" "s1 = s0"
        by (auto split: sum.splits ctl.splits)
      with e0 show ?thesis by blast
    next
      case r0: True
      with Suc.prems True c have "poll_loop n env s0 = Some (r, s1)" by simp
      from Suc.IH [OF this] have "\<exists>evs. trace s1 = trace s0 @ evs \<and> pass_ok evs r" .
      moreover from e0(2) r0 have "quiet evs0" by (auto simp: pass_ok_def)
      ultimately show ?thesis using e0(1) by (intro after_quiet [of s0 s evs0]) simp_all
    qed
  qed
qed

text \<open>In a pass that a false hook ended, the loop returns, whatever passes it has left.\<close>

lemma poll_loop_stops:
  assumes "cycle env s = (r, s1)" and "run_loop s" and "r = Inr Break \<or> r = Inr ReturnFalse"
  shows "poll_loop (Suc n) env s = Some (r, s1)"
  using assms by auto

lemma finish_trace:
  "finish env s = (r, s1) \<Longrightarrow> trace s1 = trace s @ [Disconnect]"
  by (auto simp: finish_def call_user_def split: prod.splits sum.splits)

lemma list_subscriptions_trace:
  "list_subscriptions env s = (r, s1) \<Longrightarrow> \<exists>ev. trace s1 = trace s @ [ev] \<and> \<not> hook_false ev"
  by (auto simp: list_subscriptions_def call_world_def Let_def split: prod.splits sum.splits)

lemma tail_after_false:
  assumes "quiet pre" and "halts_at_false mid" and "tail = [] \<or> tail = [Disconnect]"
    and "i < length (pre @ mid @ tail)" and "hook_false ((pre @ mid @ tail) ! i)"
  shows "drop (Suc i) (pre @ mid @ tail) = tail"
proof -
  have a: "\<not> i < length pre"
    using assms(1,5) by (auto simp: quiet_def nth_append)
  have b: "i - length pre < length mid"
  proof (rule ccontr)
    assume n: "\<not> i - length pre < length mid"
    with a assms(5) have "hook_false (tail ! (i - length pre - length mid))"
      by (simp add: nth_append)
    moreover from n a assms(4) have "i - length pre - length mid < length tail" by simp
    ultimately show False using assms(3) by auto
  qed
  with a assms(5) have "hook_false (mid ! (i - length pre))" by (simp add: nth_append)
  with b assms(2) have "Suc (i - length pre) = length mid" by (simp add: halts_at_false_def)
  with a show ?thesis by simp
qed

lemma start_after_false:
  assumes "start n env s = Some (r, s1)"
  shows "\<exists>evs. trace s1 = trace s @ evs
     \<and> (\<forall>i < length evs. hook_false (evs ! i) \<longrightarrow>
           drop (Suc i) evs = [] \<or> drop (Suc i) evs = [Disconnect])"
proof -
  obtain rc sc where c: "call_user (session_connect env) (\<lambda>r. Connect) s = (rc, sc)"
    by (cases "call_user (session_connect env) (\<lambda>r. Connect) s") auto
  note tc = call_user_trace [OF c]
  have shape: "\<exists>evs. trace s1 = trace s @ evs
     \<and> (\<forall>i < length evs. hook_false (evs ! i) \<longrightarrow>
           drop (Suc i) evs = [] \<or> drop (Suc i) evs = [Disconnect])"
    if "trace s1 = trace s @ pre @ mid @ tail" "quiet pre" "halts_at_false mid"
      "tail = [] \<or> tail = [Disconnect]" for pre mid tail
    using that tail_after_false [of pre mid tail] by (intro exI [of _ "pre @ mid @ tail"]) auto
  show ?thesis
  proof (cases rc)
    case (Inl e)
    with assms c have "s1 = sc" by (simp add: start_def)
    with tc have "trace s1 = trace s @ [Connect] @ [] @ []" by simp
    then show ?thesis
      by (rule shape) (simp_all add: quiet_single halts_at_false_def)
  next
    case (Inr u)
    obtain rl sl where l: "list_subscriptions env sc = (rl, sl)"
      by (cases "list_subscriptions env sc") auto
    from list_subscriptions_trace [OF l] obtain ev where ev: "trace sl = trace sc @ [ev]"
      "\<not> hook_false ev"
      by blast
    have q: "quiet [Connect, ev]"
      using ev(2) by (simp add: quiet_def)
    show ?thesis
    proof (cases rl)
      case (Inl e)
      with assms c Inr l have "s1 = sl" by (simp add: start_def)
      with tc ev have "trace s1 = trace s @ [Connect, ev] @ [] @ []" by simp
      then show ?thesis using q
        by (rule shape) (simp_all add: halts_at_false_def)
    next
      case cbs: (Inr cbs)
      from assms c Inr l cbs obtain rp sp where p: "poll_loop n env sl = Some (rp, sp)"
        by (cases "poll_loop n env sl") (auto simp: start_def)
      from poll_loop_ends_well [OF p] obtain mid where m: "trace sp = trace sl @ mid"
        "halts_at_false mid"
        by (auto simp: pass_ok_def)
      have "s1 = sp \<or> (\<exists>rf. finish env sp = (rf, s1))"
        using assms c Inr l cbs p
        by (auto simp: start_def split: sum.splits exn.splits ctl.splits)
      then have "\<exists>tail. trace s1 = trace sp @ tail \<and> (tail = [] \<or> tail = [Disconnect])"
        using finish_trace by fastforce
      then obtain tail where t: "trace s1 = trace sp @ tail" "tail = [] \<or> tail = [Disconnect]"
        by blast
      from t(1) m(1) ev(1) tc have "trace s1 = trace s @ [Connect, ev] @ mid @ tail" by simp
      then show ?thesis using q m(2) t(2) by (rule shape)
    qed
  qed
qed

text \<open>
  C6. In a pass of the loop, a hook that returned a false value is the last thing the
  pass did: no fetch, no dispatch, no callback, no transaction and no other hook follows
  it (each of them would write an event), the pass ends by \<open>break\<close> or by
  \<open>return False\<close>, and the loop returns with that pass whatever number of passes it
  may still make. In the log of a whole \<open>start()\<close>, nothing follows such a hook but, after
  a \<open>break\<close>, the disconnect. This holds for the hooks of \<open>_dispatch\<close> as for those of
  the loop.
\<close>

theorem false_hook_ends_pass:
  "(cycle env s = (r, s1) \<longrightarrow>
      (\<exists>evs. trace s1 = trace s @ evs \<and>
         (\<forall>i < length evs. \<forall>name. evs ! i = HookRun name (Inr False) \<longrightarrow>
             Suc i = length evs \<and> (r = Inr Break \<or> r = Inr ReturnFalse)
             \<and> (run_loop s \<longrightarrow> (\<forall>n. poll_loop (Suc n) env s = Some (r, s1))))))
   \<and> (start n env s = Some (r2, s2) \<longrightarrow>
      (\<exists>evs. trace s2 = trace s @ evs \<and>
         (\<forall>i < length evs. \<forall>name. evs ! i = HookRun name (Inr False) \<longrightarrow>
             drop (Suc i) evs = [] \<or> drop (Suc i) evs = [Disconnect])))"
proof (intro conjI impI)
  assume c: "cycle env s = (r, s1)"
  from ends_wellD [OF cycle_ends_well c] obtain evs where e: "trace s1 = trace s @ evs"
    "halts_at_false evs" "\<not> quiet evs \<longrightarrow> r = Inr Break \<or> r = Inr ReturnFalse"
    by (auto simp: pass_ok_def)
  have "Suc i = length evs \<and> (r = Inr Break \<or> r = Inr ReturnFalse)
          \<and> (run_loop s \<longrightarrow> (\<forall>n. poll_loop (Suc n) env s = Some (r, s1)))"
    if "i < length evs" "evs ! i = HookRun name (Inr False)" for i name
  proof -
    from that have h: "hook_false (evs ! i)" by simp
    with that(1) e(2) have l: "Suc i = length evs" by (simp add: halts_at_false_def)
    from h that(1) have "\<not> quiet evs" by (auto simp: quiet_def)
    with e(3) have st: "r = Inr Break \<or> r = Inr ReturnFalse" by simp
    with c have "run_loop s \<longrightarrow> (\<forall>n. poll_loop (Suc n) env s = Some (r, s1))"
      using poll_loop_stops by blast
    with l st show ?thesis by blast
  qed
  with e(1) show "\<exists>evs. trace s1 = trace s @ evs \<and>
         (\<forall>i < length evs. \<forall>name. evs ! i = HookRun name (Inr False) \<longrightarrow>
             Suc i = length evs \<and> (r = Inr Break \<or> r = Inr ReturnFalse)
             \<and> (run_loop s \<longrightarrow> (\<forall>n. poll_loop (Suc n) env s = Some (r, s1))))"
    by blast
next
  assume "start n env s = Some (r2, s2)"
  from start_after_false [OF this] obtain evs where e: "trace s2 = trace s @ evs"
    "\<forall>i < length evs. hook_false (evs ! i) \<longrightarrow>
           drop (Suc i) evs = [] \<or> drop (Suc i) evs = [Disconnect]"
    by blast
  then have "\<forall>i < length evs. \<forall>name. evs ! i = HookRun name (Inr False) \<longrightarrow>
             drop (Suc i) evs = [] \<or> drop (Suc i) evs = [Disconnect]"
    by (metis hook_false.simps(1))
  with e(1) show "\<exists>evs. trace s2 = trace s @ evs \<and>
         (\<forall>i < length evs. \<forall>name. evs ! i = HookRun name (Inr False) \<longrightarrow>
             drop (Suc i) evs = [] \<or> drop (Suc i) evs = [Disconnect])"
    by blast
qed

theorem false_hook_ends_pass_witness:
  "cycle halt_env fresh =
     (Inr Break,
      fresh\<lparr>time_last_poll := 1000,
            trace := [HookRun ''pre_poll_messages'' (Inr True),
                      Get ''plugin/message/list'',
                      HookRun ''post_poll_messages'' (Inr True),
                      HookRun ''pre_dispatch_messages'' (Inr True),
                      HookRun ''post_dispatch_messages'' (Inr True),
                      HookRun ''pre_handle_transactions'' (Inr False)]\<rparr>)
   \<and> start 1 halt_env fresh =
     Some (Inr RetNone,
       fresh\<lparr>time_last_poll := 1000,
             trace := [Connect, GetSubscriptions (Some []),
                       HookRun ''pre_poll_messages'' (Inr True),
                       Get ''plugin/message/list'',
                       HookRun ''post_poll_messages'' (Inr True),
                       HookRun ''pre_dispatch_messages'' (Inr True),
                       HookRun ''post_dispatch_messages'' (Inr True),
                       HookRun ''pre_handle_transactions'' (Inr False),
                       Disconnect]\<rparr>)
   \<and> run_loop fresh
   \<and> poll_loop (Suc 41) halt_env fresh = Some (cycle halt_env fresh)
   \<and> (drop (Suc 7) [Connect, GetSubscriptions (Some []),
                       HookRun ''pre_poll_messages'' (Inr True),
                       Get ''plugin/message/list'',
                       HookRun ''post_poll_messages'' (Inr True),
                       HookRun ''pre_dispatch_messages'' (Inr True),
                       HookRun ''post_dispatch_messages'' (Inr True),
                       HookRun ''pre_handle_transactions'' (Inr False),
                       Disconnect] = [] \<or>
       drop (Suc 7) [Connect, GetSubscriptions (Some []),
                       HookRun ''pre_poll_messages'' (Inr True),
                       Get ''plugin/message/list'',
                       HookRun ''post_poll_messages'' (Inr True),
                       HookRun ''pre_dispatch_messages'' (Inr True),
                       HookRun ''post_dispatch_messages'' (Inr True),
                       HookRun ''pre_handle_transactions'' (Inr False),
                       Disconnect] = [Disconnect])"
proof -
  let ?evs1 = "[HookRun ''pre_poll_messages'' (Inr True),
                      Get ''plugin/message/list'',
                      HookRun ''post_poll_messages'' (Inr True),
                      HookRun ''pre_dispatch_messages'' (Inr True),
                      HookRun ''post_dispatch_messages'' (Inr True),
                      HookRun ''pre_handle_transactions'' (Inr False)]"
  let ?evs2 = "Connect # GetSubscriptions (Some []) # ?evs1 @ [Disconnect]"
  let ?s1 = "fresh\<lparr>time_last_poll := 1000, trace := ?evs1\<rparr>"
  let ?s2 = "fresh\<lparr>time_last_poll := 1000, trace := ?evs2\<rparr>"
  have f: "trace fresh = []" "run_loop fresh"
    by (simp_all add: fresh_def init_def)
  have c: "cycle halt_env fresh = (Inr Break, ?s1)"
    by (simp add: loop_defs halt_env_def ledger_def)
  have s: "start 1 halt_env fresh = Some (Inr RetNone, ?s2)"
    by (simp add: loop_defs halt_env_def ledger_def)
  note inst = false_hook_ends_pass [of halt_env fresh "Inr Break" ?s1 1 "Inr RetNone" ?s2]
  from inst c obtain evs where e1: "trace ?s1 = trace fresh @ evs"
    "\<forall>i < length evs. \<forall>name. evs ! i = HookRun name (Inr False) \<longrightarrow>
         (run_loop fresh \<longrightarrow> (\<forall>n. poll_loop (Suc n) halt_env fresh = Some (Inr Break, ?s1)))"
    by blast
  from e1(1) f(1) have "evs = ?evs1" by simp
  with e1(2) have "5 < length ?evs1 \<longrightarrow> ?evs1 ! 5 = HookRun ''pre_handle_transactions'' (Inr False) \<longrightarrow>
      (run_loop fresh \<longrightarrow> (\<forall>n. poll_loop (Suc n) halt_env fresh = Some (Inr Break, ?s1)))"
    by blast
  with f(2) have "\<forall>n. poll_loop (Suc n) halt_env fresh = Some (Inr Break, ?s1)"
    by (simp del: poll_loop.simps)
  then have "poll_loop (Suc 41) halt_env fresh = Some (Inr Break, ?s1)"
    by (rule spec)
  with c have p: "poll_loop (Suc 41) halt_env fresh = Some (cycle halt_env fresh)"
    by (simp only:)
  from inst s obtain evs' where e2: "trace ?s2 = trace fresh @ evs'"
    "\<forall>i < length evs'. \<forall>name. evs' ! i = HookRun name (Inr False) \<longrightarrow>
             drop (Suc i) evs' = [] \<or> drop (Suc i) evs' = [Disconnect]"
    by blast
  from e2(1) f(1) have "evs' = ?evs2" by simp
  with e2(2) have "7 < length ?evs2 \<longrightarrow> ?evs2 ! 7 = HookRun ''pre_handle_transactions'' (Inr False) \<longrightarrow>
      drop (Suc 7) ?evs2 = [] \<or> drop (Suc 7) ?evs2 = [Disconnect]"
    by blast
  then have d: "drop (Suc 7) ?evs2 = [] \<or> drop (Suc 7) ?evs2 = [Disconnect]"
    by simp
  from c s f(2) p d show ?thesis by (simp del: poll_loop.simps)
qed

end
